theory Spec2Isabelle
  imports Complex_Main "HOL-Library.Sublist"
begin

section \<open>Common data: errors, strings, file objects\<close>

text \<open>
  A thrown JavaScript exception is a value: the constructor of the error object together
  with its message. Every function of \<^verbatim>\<open>static/js/medical-app.js\<close> that can throw returns
  \<open>js_error + 'a\<close>, with \<open>Inl\<close> the exception.

  Strings are lists of code units. The embedding covers the code units below 256
  (ASCII and Latin-1), which is what the type \<open>char\<close> holds.
\<close>

datatype js_error = Error string | RangeError string | ReferenceError string

text \<open>The three properties of a \<^verbatim>\<open>File\<close> object that the validators read.\<close>

record file_obj =
  file_name :: string
  file_type :: string
  file_size :: nat

subsection \<open>String primitives of the language\<close>

text \<open>
  \<^verbatim>\<open>String.prototype.toLowerCase\<close> on code units below 256: \<^verbatim>\<open>A\<close>..\<^verbatim>\<open>Z\<close> and the Latin-1
  capitals U+00C0..U+00DE (without the multiplication sign U+00D7) move up by 32, every
  other code unit is kept.
\<close>

definition lower_char :: "char \<Rightarrow> char" where
  "lower_char c =
     (let n = (of_char c :: nat)
      in if (65 \<le> n \<and> n \<le> 90) \<or> (192 \<le> n \<and> n \<le> 222 \<and> n \<noteq> 215)
         then char_of (n + 32) else c)"

definition toLowerCase :: "string \<Rightarrow> string" where
  "toLowerCase s = map lower_char s"

text \<open>
  \<^verbatim>\<open>String.prototype.includes\<close>: does the search string occur at some position of the
  receiver.
\<close>

fun str_includes :: "string \<Rightarrow> string \<Rightarrow> bool" where
  "str_includes [] t = (t = [])"
| "str_includes (c # cs) t = (prefix t (c # cs) \<or> str_includes cs t)"

text \<open>\<^verbatim>\<open>Array.prototype.includes\<close> on an array of strings.\<close>

definition array_includes :: "string list \<Rightarrow> string \<Rightarrow> bool" where
  "array_includes xs x = (x \<in> set xs)"

section \<open>File validation\<close>

subsection \<open>\<^verbatim>\<open>MedicalApp.validateImage\<close>\<close>

definition validTypes :: "string list" where
  "validTypes = [''image/jpeg'', ''image/jpg'', ''image/png'', ''image/gif'', ''image/bmp'',
                 ''image/tiff'']"

definition maxSize :: nat where
  "maxSize = 16 * 1024 * 1024"

definition validateImage :: "file_obj \<Rightarrow> js_error + bool" where
  "validateImage f =
     (if \<not> array_includes validTypes (file_type f) then
        Inl (Error ''Invalid file type. Please upload an image file (JPEG, PNG, GIF, BMP, TIFF)'')
      else if file_size f > maxSize then
        Inl (Error ''File too large. Maximum size is 16MB'')
      else Inr True)"

subsection \<open>\<^verbatim>\<open>SecurityUtils.secureFileUpload\<close>\<close>

definition allowedTypes :: "string list" where
  "allowedTypes = [''image/jpeg'', ''image/png'', ''image/gif'', ''image/bmp'', ''image/tiff'']"

definition dangerousExtensions :: "string list" where
  "dangerousExtensions = [''.exe'', ''.bat'', ''.cmd'', ''.scr'', ''.pif'', ''.com'']"

text \<open>
  The \<^verbatim>\<open>for (const ext of dangerousExtensions)\<close> loop: it throws at the first extension
  that the lowercased name includes, and falls through to \<^verbatim>\<open>return true\<close> otherwise.
\<close>

fun check_extensions :: "string \<Rightarrow> string list \<Rightarrow> js_error + bool" where
  "check_extensions fileName [] = Inr True"
| "check_extensions fileName (ext # exts) =
     (if str_includes fileName ext then Inl (Error ''Potentially dangerous file detected'')
      else check_extensions fileName exts)"

definition secureFileUpload :: "file_obj \<Rightarrow> js_error + bool" where
  "secureFileUpload f =
     (if \<not> array_includes allowedTypes (file_type f) then Inl (Error ''Invalid file type'')
      else if file_size f > maxSize then Inl (Error ''File too large'')
      else check_extensions (toLowerCase (file_name f)) dangerousExtensions)"


section \<open>HTML escaping\<close>

text \<open>
  \<^verbatim>\<open>sanitizeHTML\<close> creates a detached \<^verbatim>\<open>div\<close>, assigns its \<^verbatim>\<open>textContent\<close> and reads its
  \<^verbatim>\<open>innerHTML\<close>. The part of the DOM it touches is an element with text children:
  the \<^verbatim>\<open>textContent\<close> setter replaces the children by one text node holding the string
  (by none when the string is empty), and the \<^verbatim>\<open>innerHTML\<close> getter serialises each text
  child with the text-node escaping of the HTML fragment serialisation algorithm:
  \<^verbatim>\<open>&\<close> becomes \<^verbatim>\<open>&amp;\<close>, U+00A0 becomes \<^verbatim>\<open>&nbsp;\<close>, \<^verbatim>\<open><\<close> becomes \<^verbatim>\<open>&lt;\<close>, \<^verbatim>\<open>>\<close> becomes
  \<^verbatim>\<open>&gt;\<close>; the double quote is replaced in attribute values only, the single quote
  nowhere.
\<close>

record dom_element =
  tagName :: string
  textChildren :: "string list"

definition createElement :: "string \<Rightarrow> dom_element" where
  "createElement tag = \<lparr>tagName = tag, textChildren = []\<rparr>"

definition set_textContent :: "string \<Rightarrow> dom_element \<Rightarrow> dom_element" where
  "set_textContent str el = el\<lparr>textChildren := (if str = [] then [] else [str])\<rparr>"

definition escape_char :: "char \<Rightarrow> string" where
  "escape_char c =
     (if c = CHR ''&'' then ''&amp;''
      else if c = CHR 0xA0 then ''&nbsp;''
      else if c = CHR ''<'' then ''&lt;''
      else if c = CHR ''>'' then ''&gt;''
      else [c])"

definition escape_text :: "string \<Rightarrow> string" where
  "escape_text s = concat (map escape_char s)"

definition innerHTML :: "dom_element \<Rightarrow> string" where
  "innerHTML el = concat (map escape_text (textChildren el))"

definition sanitizeHTML :: "string \<Rightarrow> string" where
  "sanitizeHTML str =
     (let div_el = createElement ''div'';
          div_el = set_textContent str div_el
      in innerHTML div_el)"

section \<open>Responsive layout classes\<close>

text \<open>
  \<^verbatim>\<open>DOMTokenList.add\<close> and \<^verbatim>\<open>DOMTokenList.remove\<close> on the ordered set of class names of
  an element.
\<close>

definition classList_add :: "string \<Rightarrow> string list \<Rightarrow> string list" where
  "classList_add c cl = (if c \<in> set cl then cl else cl @ [c])"

definition classList_remove :: "string \<Rightarrow> string list \<Rightarrow> string list" where
  "classList_remove c cl = filter (\<lambda>x. x \<noteq> c) cl"

definition classList_contains :: "string list \<Rightarrow> string \<Rightarrow> bool" where
  "classList_contains cl c = (c \<in> set cl)"

text \<open>The window width and the class list of \<^verbatim>\<open>document.body\<close>.\<close>

record viewport =
  innerWidth :: nat
  body_classList :: "string list"

definition handleResponsiveLayout :: "viewport \<Rightarrow> viewport" where
  "handleResponsiveLayout v =
     (let width = innerWidth v;
          v = (if width < 768
               then v\<lparr>body_classList := classList_add ''mobile-layout'' (body_classList v)\<rparr>
               else v\<lparr>body_classList := classList_remove ''mobile-layout'' (body_classList v)\<rparr>);
          v = (if width \<ge> 768 \<and> width < 992
               then v\<lparr>body_classList := classList_add ''tablet-layout'' (body_classList v)\<rparr>
               else v\<lparr>body_classList := classList_remove ''tablet-layout'' (body_classList v)\<rparr>)
      in v)"

section \<open>Handlers that use the Bootstrap global\<close>

text \<open>
  The page as the handlers of \<^verbatim>\<open>MedicalApp\<close> see it: the elements of the document in
  document order, and the global \<^verbatim>\<open>bootstrap\<close>. The global is \<open>None\<close> when the toolkit
  is not loaded (\<^verbatim>\<open>typeof bootstrap === 'undefined'\<close>); when it is loaded, it tells for
  each element whether \<^verbatim>\<open>bootstrap.Modal.getInstance\<close> has an instance for it.
  What a handler does to the page is returned as a list of effects.
\<close>

record element =
  el_id :: nat
  classList :: "string list"
  attributes :: "(string \<times> string) list"
  style_width :: string

record page =
  bootstrap :: "(nat \<Rightarrow> bool) option"
  elements :: "element list"

record key_event =
  key :: string
  target :: element

datatype effect =
    NewTooltip nat
  | ModalHide nat
  | Click nat
  | SetStyleWidth nat string
  | SetTimeout nat effect

text \<open>\<^verbatim>\<open>document.querySelectorAll('.modal.show')\<close>\<close>

definition querySelectorAll_modal_show :: "page \<Rightarrow> element list" where
  "querySelectorAll_modal_show p =
     filter (\<lambda>e. classList_contains (classList e) ''modal'' \<and> classList_contains (classList e) ''show'')
       (elements p)"

text \<open>\<^verbatim>\<open>document.querySelectorAll('[data-bs-toggle="tooltip"]')\<close>\<close>

definition querySelectorAll_tooltip :: "page \<Rightarrow> element list" where
  "querySelectorAll_tooltip p =
     filter (\<lambda>e. map_of (attributes e) ''data-bs-toggle'' = Some ''tooltip'') (elements p)"

text \<open>\<^verbatim>\<open>document.querySelectorAll('.confidence-fill')\<close>\<close>

definition querySelectorAll_confidence_fill :: "page \<Rightarrow> element list" where
  "querySelectorAll_confidence_fill p =
     filter (\<lambda>e. classList_contains (classList e) ''confidence-fill'') (elements p)"

text \<open>
  The body of \<^verbatim>\<open>openModals.forEach\<close> in the key-down listener evaluates
  \<^verbatim>\<open>bootstrap.Modal.getInstance(modal)\<close> once per open modal; reading the identifier
  \<^verbatim>\<open>bootstrap\<close> when no such global exists throws a \<^verbatim>\<open>ReferenceError\<close>, which ends the
  loop and the handler.
\<close>

fun close_modals :: "(nat \<Rightarrow> bool) option \<Rightarrow> element list \<Rightarrow> js_error + effect list" where
  "close_modals bs [] = Inr []"
| "close_modals bs (modal # modals) =
     (case bs of
        None \<Rightarrow> Inl (ReferenceError ''bootstrap is not defined'')
      | Some getInstance \<Rightarrow>
          (case close_modals bs modals of
             Inl err \<Rightarrow> Inl err
           | Inr effs \<Rightarrow>
               Inr ((if getInstance (el_id modal) then [ModalHide (el_id modal)] else []) @ effs)))"

text \<open>The listener that \<^verbatim>\<open>setupKeyboardNavigation\<close> registers for \<^verbatim>\<open>keydown\<close>.\<close>

definition keydown_listener :: "page \<Rightarrow> key_event \<Rightarrow> js_error + effect list" where
  "keydown_listener p e =
     (case (if key e = ''Escape'' then close_modals (bootstrap p) (querySelectorAll_modal_show p)
            else Inr []) of
        Inl err \<Rightarrow> Inl err
      | Inr effs \<Rightarrow>
          Inr (effs @
               (if key e = ''Enter'' \<and> classList_contains (classList (target e)) ''custom-btn''
                then [Click (el_id (target e))] else [])))"

definition initializeProgressBars :: "page \<Rightarrow> effect list" where
  "initializeProgressBars p =
     concat (map (\<lambda>bar. [SetStyleWidth (el_id bar) ''0%'',
                          SetTimeout 500 (SetStyleWidth (el_id bar) (style_width bar))])
               (querySelectorAll_confidence_fill p))"

definition initializeComponents :: "page \<Rightarrow> js_error + effect list" where
  "initializeComponents p =
     Inr ((if bootstrap p \<noteq> None
           then map (\<lambda>tooltipTriggerEl. NewTooltip (el_id tooltipTriggerEl)) (querySelectorAll_tooltip p)
           else []) @
          initializeProgressBars p)"

section \<open>Debounce and throttle\<close>

text \<open>
  Both wrappers keep their state in variables of the closure and in timers of the host.
  The embedding makes both explicit. Time is a number of milliseconds on the clock of the
  event loop; a timer set at time \<open>t\<close> with delay \<open>d\<close> is due at \<open>t + d\<close>. The wrapped
  \<^verbatim>\<open>func\<close> is opaque: each invocation is recorded with its time and its arguments.
\<close>

subsection \<open>\<^verbatim>\<open>Utils.debounce\<close>\<close>

text \<open>
  The closure variable \<^verbatim>\<open>timeout\<close> is \<open>None\<close> while it is \<^verbatim>\<open>undefined\<close> or \<^verbatim>\<open>null\<close> and
  holds the identifier of the last timer otherwise (identifiers are positive, hence
  truthy). Each active timer is kept with its identifier, its due time and the
  arguments that its callback \<^verbatim>\<open>later\<close> has captured.
\<close>

record 'a debounce_state =
  timeout :: "nat option"
  timers :: "(nat \<times> nat \<times> 'a) list"
  next_id :: nat
  invoked :: "(nat \<times> 'a) list"

text \<open>The state right after \<^verbatim>\<open>Utils.debounce(func, wait, immediate)\<close> has returned.\<close>

definition debounce :: "'a debounce_state" where
  "debounce = \<lparr>timeout = None, timers = [], next_id = 1, invoked = []\<rparr>"

definition func :: "nat \<Rightarrow> 'a \<Rightarrow> 'a debounce_state \<Rightarrow> 'a debounce_state" where
  "func now args st = st\<lparr>invoked := invoked st @ [(now, args)]\<rparr>"

definition clearTimeout :: "nat option \<Rightarrow> 'a debounce_state \<Rightarrow> 'a debounce_state" where
  "clearTimeout tid st =
     (case tid of
        None \<Rightarrow> st
      | Some i \<Rightarrow> st\<lparr>timers := filter (\<lambda>(j, due, args). j \<noteq> i) (timers st)\<rparr>)"

definition setTimeout :: "'a \<Rightarrow> nat \<Rightarrow> nat \<Rightarrow> 'a debounce_state \<Rightarrow> nat \<times> 'a debounce_state" where
  "setTimeout args wait now st =
     (next_id st,
      st\<lparr>timers := timers st @ [(next_id st, now + wait, args)], next_id := Suc (next_id st)\<rparr>)"

definition later :: "bool \<Rightarrow> nat \<Rightarrow> 'a \<Rightarrow> 'a debounce_state \<Rightarrow> 'a debounce_state" where
  "later immediate now args st =
     (let st = st\<lparr>timeout := None\<rparr>
      in if \<not> immediate then func now args st else st)"

definition executedFunction ::
  "bool \<Rightarrow> nat \<Rightarrow> nat \<Rightarrow> 'a \<Rightarrow> 'a debounce_state \<Rightarrow> 'a debounce_state" where
  "executedFunction immediate wait now args st =
     (let callNow = (immediate \<and> timeout st = None);
          st = clearTimeout (timeout st) st;
          (tid, st) = setTimeout args wait now st;
          st = st\<lparr>timeout := Some tid\<rparr>
      in if callNow then func now args st else st)"

text \<open>
  The event loop up to time \<open>now\<close>: the timers due by then run, earliest first, and
  timers due at the same time in the order they were set. The callback of a timer runs
  at its due time.
\<close>

definition run_timers :: "bool \<Rightarrow> nat \<Rightarrow> 'a debounce_state \<Rightarrow> 'a debounce_state" where
  "run_timers immediate now st =
     (let due = sort_key (\<lambda>(j, due, args). due) (filter (\<lambda>(j, due, args). due \<le> now) (timers st));
          st = st\<lparr>timers := filter (\<lambda>(j, due, args). \<not> due \<le> now) (timers st)\<rparr>
      in fold (\<lambda>(j, due, args). later immediate due args) due st)"

text \<open>A sequence of calls of the wrapper, each with its time and its arguments.\<close>

fun run_calls :: "bool \<Rightarrow> nat \<Rightarrow> (nat \<times> 'a) list \<Rightarrow> 'a debounce_state \<Rightarrow> 'a debounce_state" where
  "run_calls immediate wait [] st = st"
| "run_calls immediate wait ((now, args) # calls) st =
     run_calls immediate wait calls (executedFunction immediate wait now args (run_timers immediate now st))"

text \<open>
  The bursts of the specification: the times do not decrease and each call comes less
  than \<open>wait\<close> ms after the one before it.
\<close>

fun within_wait :: "nat \<Rightarrow> nat list \<Rightarrow> bool" where
  "within_wait wait (t # u # ts) = (t \<le> u \<and> u < t + wait \<and> within_wait wait (u # ts))"
| "within_wait wait ts = True"

subsection \<open>\<^verbatim>\<open>Utils.throttle\<close>\<close>

text \<open>
  The closure variable \<^verbatim>\<open>inThrottle\<close> (\<^verbatim>\<open>undefined\<close> at first, which is falsy), the due times
  of the pending callbacks \<^verbatim>\<open>() => inThrottle = false\<close>, and the record of the invocations
  of \<^verbatim>\<open>func\<close>.
\<close>

record 'a throttle_state =
  inThrottle :: bool
  unlock_timers :: "nat list"
  applied :: "(nat \<times> 'a) list"

text \<open>The state right after \<^verbatim>\<open>Utils.throttle(func, limit)\<close> has returned.\<close>

definition throttle :: "'a throttle_state" where
  "throttle = \<lparr>inThrottle = False, unlock_timers = [], applied = []\<rparr>"

definition throttled :: "nat \<Rightarrow> nat \<Rightarrow> 'a \<Rightarrow> 'a throttle_state \<Rightarrow> 'a throttle_state" where
  "throttled limit now args st =
     (if \<not> inThrottle st then
        (let st = st\<lparr>applied := applied st @ [(now, args)]\<rparr>;
             st = st\<lparr>inThrottle := True\<rparr>;
             st = st\<lparr>unlock_timers := unlock_timers st @ [now + limit]\<rparr>
         in st)
      else st)"

text \<open>
  The callback of a timer is a task of its own: the event loop runs it between two
  tasks, never inside one. Calls of the wrapper made by one task therefore see no timer
  fire between them, whatever time the task takes. A run is a sequence of events: a call
  of the wrapper with its time and its arguments, or the event loop being between two
  tasks at a given time, when it runs the callbacks of the timers due by then.
\<close>

datatype 'a event = Call nat 'a | Idle nat

definition run_unlock_timers :: "nat \<Rightarrow> 'a throttle_state \<Rightarrow> 'a throttle_state" where
  "run_unlock_timers now st =
     (let due = filter (\<lambda>due. due \<le> now) (unlock_timers st);
          st = st\<lparr>unlock_timers := filter (\<lambda>due. \<not> due \<le> now) (unlock_timers st)\<rparr>
      in fold (\<lambda>due st. st\<lparr>inThrottle := False\<rparr>) due st)"

fun run_throttled :: "nat \<Rightarrow> 'a event list \<Rightarrow> 'a throttle_state \<Rightarrow> 'a throttle_state" where
  "run_throttled limit [] st = st"
| "run_throttled limit (Call now args # events) st =
     run_throttled limit events (throttled limit now args st)"
| "run_throttled limit (Idle now # events) st =
     run_throttled limit events (run_unlock_timers now st)"

text \<open>
  The specification of the throttle, in its own words: a call outside a lock invokes
  \<^verbatim>\<open>func\<close> and starts a lock of \<open>limit\<close> ms; a call during a lock is dropped; the lock
  ends when the event loop gets to run \<open>limit\<close> ms or more after the call that started it.
  The lock is \<open>None\<close> when the wrapper is open and \<open>Some u\<close> when it is locked until \<open>u\<close>.
\<close>

fun throttle_spec :: "nat \<Rightarrow> nat option \<Rightarrow> 'a event list \<Rightarrow> (nat \<times> 'a) list" where
  "throttle_spec limit lock [] = []"
| "throttle_spec limit lock (Call now args # events) =
     (case lock of
        Some u \<Rightarrow> throttle_spec limit lock events
      | None \<Rightarrow> (now, args) # throttle_spec limit (Some (now + limit)) events)"
| "throttle_spec limit lock (Idle now # events) =
     throttle_spec limit
       (case lock of Some u \<Rightarrow> if u \<le> now then None else Some u | None \<Rightarrow> None) events"

text \<open>No event of the list lets the event loop run at time \<open>u\<close> or later.\<close>

fun idle_before :: "nat \<Rightarrow> 'a event list \<Rightarrow> bool" where
  "idle_before u [] = True"
| "idle_before u (Call now args # events) = idle_before u events"
| "idle_before u (Idle now # events) = (now < u \<and> idle_before u events)"

section \<open>Byte counts as text\<close>

text \<open>
  A byte count is a non-negative integer that is a Number value. For such a count the
  quotient \<^verbatim>\<open>bytes / Math.pow(k, i)\<close> is exact (the divisor is a power of two), and
  \<^verbatim>\<open>toFixed\<close> rounds the exact value of its receiver; both are modelled on the reals.

  The index \<^verbatim>\<open>Math.floor(Math.log(bytes) / Math.log(k))\<close> is computed in floating point,
  from a logarithm that the language leaves to the host. What the host computes for the
  quotient is the quotient of the real logarithms times \<open>1 + \<epsilon>\<close>, for a relative error \<open>\<epsilon>\<close>
  that depends on the host and on the count (the logarithm of 1 is exactly 0 on every
  host). This error is the parameter \<open>rounding\<close> of the index and of the two formatting
  functions; on the hosts in use it is a few units of \<open>2\<^sup>-\<^sup>5\<^sup>3\<close>.
\<close>

definition log_index :: "(nat \<Rightarrow> real) \<Rightarrow> real \<Rightarrow> nat \<Rightarrow> int" where
  "log_index rounding k bytes = \<lfloor>ln (real bytes) / ln k * (1 + rounding bytes)\<rfloor>"

text \<open>The decimal digits of a natural number, most significant first.\<close>

fun digits :: "nat \<Rightarrow> string" where
  "digits n =
     (if n < 10 then [''0123456789'' ! n]
      else digits (n div 10) @ [''0123456789'' ! (n mod 10)])"

text \<open>
  \<^verbatim>\<open>Number.prototype.toFixed(fractionDigits)\<close> for a receiver \<open>0 \<le> x < 10\<^sup>2\<^sup>1\<close>: the integer
  \<open>n\<close> for which \<open>n / 10\<^sup>f\<close> is nearest to \<open>x\<close> (the larger one of two), written in decimal
  with a point before its last \<open>f\<close> digits and padded with zeros on the left up to
  \<open>f + 1\<close> digits. More than 100 fraction digits are a \<^verbatim>\<open>RangeError\<close>.
\<close>

definition toFixed_integer :: "real \<Rightarrow> nat \<Rightarrow> nat" where
  "toFixed_integer x f = nat \<lfloor>x * 10 ^ f + 1 / 2\<rfloor>"

definition toFixed_string :: "nat \<Rightarrow> nat \<Rightarrow> string" where
  "toFixed_string n f =
     (let m = digits n;
          m = (if f \<noteq> 0 \<and> length m \<le> f then replicate (f + 1 - length m) (CHR ''0'') @ m else m)
      in if f = 0 then m else take (length m - f) m @ ''.'' @ drop (length m - f) m)"

definition toFixed :: "real \<Rightarrow> nat \<Rightarrow> js_error + string" where
  "toFixed x fractionDigits =
     (if fractionDigits > 100
      then Inl (RangeError ''toFixed() digits argument must be between 0 and 100'')
      else Inr (toFixed_string (toFixed_integer x fractionDigits) fractionDigits))"

text \<open>
  \<^verbatim>\<open>parseFloat(s) + ' '\<close> converts the text \<open>s\<close> made by \<^verbatim>\<open>toFixed\<close> to a Number and back to
  text. For a decimal of at most 15 significant digits that is 0 or at least 1, the
  Number determines the decimal, and the text that comes back is the decimal without the
  zeros at the end of its fraction, and without the point when no fraction digit is left.
  The embedding covers these decimals.
\<close>

definition parseFloat_toString :: "string \<Rightarrow> string" where
  "parseFloat_toString s =
     (let whole = takeWhile (\<lambda>c. c \<noteq> CHR ''.'') s;
          fraction = drop (length whole + 1) s;
          fraction = rev (dropWhile (\<lambda>c. c = CHR ''0'') (rev fraction))
      in if fraction = [] then whole else whole @ ''.'' @ fraction)"

text \<open>
  \<^verbatim>\<open>sizes[i]\<close> is \<^verbatim>\<open>undefined\<close> for an index outside the array, and string concatenation
  writes \<^verbatim>\<open>undefined\<close> as the text \<^verbatim>\<open>undefined\<close>.
\<close>

definition array_get :: "string list \<Rightarrow> int \<Rightarrow> string option" where
  "array_get xs i = (if 0 \<le> i \<and> i < int (length xs) then Some (xs ! nat i) else None)"

definition to_string :: "string option \<Rightarrow> string" where
  "to_string v = (case v of None \<Rightarrow> ''undefined'' | Some s \<Rightarrow> s)"

text \<open>\<^verbatim>\<open>Math.pow(k, i)\<close> for an integer \<open>i\<close> of either sign.\<close>

definition pow :: "real \<Rightarrow> int \<Rightarrow> real" where
  "pow k i = (if 0 \<le> i then k ^ nat i else 1 / k ^ nat (- i))"

subsection \<open>\<^verbatim>\<open>Utils.formatBytes\<close>\<close>

definition formatBytes :: "(nat \<Rightarrow> real) \<Rightarrow> nat \<Rightarrow> int option \<Rightarrow> js_error + string" where
  "formatBytes rounding bytes decimals =
     (if bytes = 0 then Inr ''0 Bytes''
      else
        let decimals = (case decimals of None \<Rightarrow> 2 | Some d \<Rightarrow> d);
            k = 1024;
            dm = (if decimals < 0 then 0 else decimals);
            sizes = [''Bytes'', ''KB'', ''MB'', ''GB'', ''TB'', ''PB'', ''EB'', ''ZB'', ''YB''];
            i = log_index rounding k bytes
        in case toFixed (real bytes / pow k i) (nat dm) of
             Inl err \<Rightarrow> Inl err
           | Inr s \<Rightarrow> Inr (parseFloat_toString s @ '' '' @ to_string (array_get sizes i)))"

subsection \<open>\<^verbatim>\<open>MedicalApp.formatFileSize\<close>\<close>

definition formatFileSize :: "(nat \<Rightarrow> real) \<Rightarrow> nat \<Rightarrow> js_error + string" where
  "formatFileSize rounding bytes =
     (if bytes = 0 then Inr ''0 Bytes''
      else
        let k = 1024;
            sizes = [''Bytes'', ''KB'', ''MB'', ''GB''];
            i = log_index rounding k bytes
        in case toFixed (real bytes / pow k i) 2 of
             Inl err \<Rightarrow> Inl err
           | Inr s \<Rightarrow> Inr (parseFloat_toString s @ '' '' @ to_string (array_get sizes i)))"

section \<open>Properties of the file validators\<close>

lemma str_includes_iff: "str_includes s t \<longleftrightarrow> (\<exists>ps ss. s = ps @ t @ ss)"
proof (induction s)
  case Nil
  then show ?case by auto
next
  case (Cons c cs)
  have "sublist t (c # cs) \<longleftrightarrow> prefix t (c # cs) \<or> sublist t cs"
    by (rule sublist_Cons_right)
  with Cons show ?case
    by (simp add: sublist_def)
qed

lemma check_extensions_Inr:
  "check_extensions n exts = Inr True \<longleftrightarrow> \<not> (\<exists>ext\<in>set exts. str_includes n ext)"
  by (induction exts) auto

lemma check_extensions_Inl:
  "check_extensions n exts = Inl (Error ''Potentially dangerous file detected'') \<longleftrightarrow>
     (\<exists>ext\<in>set exts. str_includes n ext)"
  by (induction exts) auto

text \<open>
  Claim C1. \<^verbatim>\<open>validateImage(f)\<close> returns \<^verbatim>\<open>true\<close> when the MIME type of \<open>f\<close> is one of
  image/jpeg, image/jpg, image/png, image/gif, image/bmp, image/tiff and its size is at
  most 16 MiB, and throws an \<^verbatim>\<open>Error\<close> with a non-empty message otherwise. It throws for
  every application/pdf file, returns \<^verbatim>\<open>true\<close> for every image/png file of at most 16 MiB,
  and throws for every image/png file of 17 MiB.
\<close>

theorem validateImage_accepts_iff:
  "(file_type f \<in> {''image/jpeg'', ''image/jpg'', ''image/png'', ''image/gif'', ''image/bmp'',
                     ''image/tiff''} \<and> file_size f \<le> 16 * 1024 * 1024
      \<longrightarrow> validateImage f = Inr True) \<and>
   (\<not> (file_type f \<in> {''image/jpeg'', ''image/jpg'', ''image/png'', ''image/gif'', ''image/bmp'',
                        ''image/tiff''} \<and> file_size f \<le> 16 * 1024 * 1024)
      \<longrightarrow> (\<exists>msg. validateImage f = Inl (Error msg) \<and> msg \<noteq> [])) \<and>
   (file_type f = ''application/pdf'' \<longrightarrow> (\<exists>msg. validateImage f = Inl (Error msg))) \<and>
   (file_type f = ''image/png'' \<and> file_size f < 16 * 1024 * 1024 \<longrightarrow> validateImage f = Inr True) \<and>
   (file_type f = ''image/png'' \<and> file_size f = 17 * 1024 * 1024
      \<longrightarrow> validateImage f = Inl (Error ''File too large. Maximum size is 16MB''))"
  by (simp add: validateImage_def array_includes_def validTypes_def maxSize_def)

theorem validateImage_accepts_iff_witness:
  "validateImage \<lparr>file_name = ''scan.png'', file_type = ''image/png'', file_size = 2048\<rparr> = Inr True \<and>
   (\<exists>msg. validateImage \<lparr>file_name = ''scan.pdf'', file_type = ''application/pdf'',
                          file_size = 2048\<rparr> = Inl (Error msg)) \<and>
   validateImage \<lparr>file_name = ''scan.png'', file_type = ''image/png'',
                  file_size = 17 * 1024 * 1024\<rparr> = Inl (Error ''File too large. Maximum size is 16MB'')"
  using validateImage_accepts_iff
          [of "\<lparr>file_name = ''scan.png'', file_type = ''image/png'', file_size = 2048\<rparr>"]
        validateImage_accepts_iff
          [of "\<lparr>file_name = ''scan.pdf'', file_type = ''application/pdf'', file_size = 2048\<rparr>"]
        validateImage_accepts_iff
          [of "\<lparr>file_name = ''scan.png'', file_type = ''image/png'', file_size = 17 * 1024 * 1024\<rparr>"]
  by simp

text \<open>
  Claim C2. For a file whose MIME type is in the allow-list of \<^verbatim>\<open>secureFileUpload\<close> and
  whose size is at most 16 MiB, \<^verbatim>\<open>secureFileUpload\<close> throws exactly when the lowercased
  file name contains one of .exe, .bat, .cmd, .scr, .pif, .com as a substring at any
  position, and returns \<^verbatim>\<open>true\<close> otherwise. It throws for report.exe and for my.exe.png
  and returns \<^verbatim>\<open>true\<close> for photo.png.
\<close>

theorem secureFileUpload_denylist:
  assumes "file_type f \<in> {''image/jpeg'', ''image/png'', ''image/gif'', ''image/bmp'', ''image/tiff''}"
    and "file_size f \<le> 16 * 1024 * 1024"
  shows "(secureFileUpload f = Inl (Error ''Potentially dangerous file detected'') \<longleftrightarrow>
            (\<exists>ext\<in>{''.exe'', ''.bat'', ''.cmd'', ''.scr'', ''.pif'', ''.com''}.
               \<exists>ps ss. toLowerCase (file_name f) = ps @ ext @ ss)) \<and>
         (secureFileUpload f = Inr True \<longleftrightarrow>
            \<not> (\<exists>ext\<in>{''.exe'', ''.bat'', ''.cmd'', ''.scr'', ''.pif'', ''.com''}.
               \<exists>ps ss. toLowerCase (file_name f) = ps @ ext @ ss)) \<and>
         (file_name f = ''report.exe''
            \<longrightarrow> secureFileUpload f = Inl (Error ''Potentially dangerous file detected'')) \<and>
         (file_name f = ''my.exe.png''
            \<longrightarrow> secureFileUpload f = Inl (Error ''Potentially dangerous file detected'')) \<and>
         (file_name f = ''photo.png'' \<longrightarrow> secureFileUpload f = Inr True)"
proof -
  have run: "secureFileUpload f = check_extensions (toLowerCase (file_name f)) dangerousExtensions"
    using assms by (auto simp: secureFileUpload_def array_includes_def allowedTypes_def maxSize_def)
  have exts: "set dangerousExtensions = {''.exe'', ''.bat'', ''.cmd'', ''.scr'', ''.pif'', ''.com''}"
    by (simp add: dangerousExtensions_def)
  have thrown: "secureFileUpload f = Inl (Error ''Potentially dangerous file detected'') \<longleftrightarrow>
      (\<exists>ext\<in>{''.exe'', ''.bat'', ''.cmd'', ''.scr'', ''.pif'', ''.com''}.
         \<exists>ps ss. toLowerCase (file_name f) = ps @ ext @ ss)"
    unfolding run check_extensions_Inl exts str_includes_iff ..
  have returned: "secureFileUpload f = Inr True \<longleftrightarrow>
      \<not> (\<exists>ext\<in>{''.exe'', ''.bat'', ''.cmd'', ''.scr'', ''.pif'', ''.com''}.
         \<exists>ps ss. toLowerCase (file_name f) = ps @ ext @ ss)"
    unfolding run check_extensions_Inr exts str_includes_iff ..
  have report: "check_extensions (toLowerCase ''report.exe'') dangerousExtensions
      = Inl (Error ''Potentially dangerous file detected'')"
    by code_simp
  have my: "check_extensions (toLowerCase ''my.exe.png'') dangerousExtensions
      = Inl (Error ''Potentially dangerous file detected'')"
    by code_simp
  have photo: "check_extensions (toLowerCase ''photo.png'') dangerousExtensions = Inr True"
    by code_simp
  from thrown returned report my photo show ?thesis
    by (simp add: run)
qed

theorem secureFileUpload_denylist_witness:
  "secureFileUpload \<lparr>file_name = ''my.exe.png'', file_type = ''image/png'', file_size = 4096\<rparr>
     = Inl (Error ''Potentially dangerous file detected'') \<and>
   secureFileUpload \<lparr>file_name = ''photo.png'', file_type = ''image/png'', file_size = 4096\<rparr>
     = Inr True"
  using secureFileUpload_denylist
          [of "\<lparr>file_name = ''my.exe.png'', file_type = ''image/png'', file_size = 4096\<rparr>"]
        secureFileUpload_denylist
          [of "\<lparr>file_name = ''photo.png'', file_type = ''image/png'', file_size = 4096\<rparr>"]
  by simp

section \<open>HTML escaping: what \<^verbatim>\<open>sanitizeHTML\<close> escapes\<close>

lemma sanitizeHTML_escape_text: "sanitizeHTML s = escape_text s"
  by (simp add: sanitizeHTML_def createElement_def set_textContent_def innerHTML_def escape_text_def)

lemma escape_char_no_angle: "CHR ''<'' \<notin> set (escape_char c) \<and> CHR ''>'' \<notin> set (escape_char c)"
  by (simp add: escape_char_def)

lemma escape_char_quotes:
  "filter (\<lambda>c. c = CHR 0x22 \<or> c = CHR 0x27) (escape_char c)
     = filter (\<lambda>c. c = CHR 0x22 \<or> c = CHR 0x27) [c]"
  by (simp add: escape_char_def)

lemma escape_text_quotes:
  "filter (\<lambda>c. c = CHR 0x22 \<or> c = CHR 0x27) (escape_text s)
     = filter (\<lambda>c. c = CHR 0x22 \<or> c = CHR 0x27) s"
proof (induction s)
  case Nil
  show ?case by (simp add: escape_text_def)
next
  case (Cons c s)
  have "escape_text (c # s) = escape_char c @ escape_text s"
    by (simp add: escape_text_def)
  with Cons escape_char_quotes [of c] show ?case
    by simp
qed

lemma escape_char_amp:
  assumes "escape_char c = ps @ CHR ''&'' # us"
  shows "ps = [] \<and> us \<in> {''amp;'', ''lt;'', ''gt;'', ''nbsp;''}"
  using assms
  by (auto simp: escape_char_def Cons_eq_append_conv append_eq_Cons_conv split: if_splits)

lemma escape_text_amp:
  assumes "escape_text s = ps @ CHR ''&'' # ss"
  shows "\<exists>e\<in>{''amp;'', ''lt;'', ''gt;'', ''nbsp;''}. prefix e ss"
  using assms
proof (induction s arbitrary: ps)
  case Nil
  then show ?case by (simp add: escape_text_def)
next
  case (Cons c s)
  have step: "escape_text (c # s) = escape_char c @ escape_text s"
    by (simp add: escape_text_def)
  from Cons.prems have "escape_char c @ escape_text s = ps @ CHR ''&'' # ss"
    by (simp only: step)
  then consider us where "ps = escape_char c @ us" and "escape_text s = us @ CHR ''&'' # ss"
    | us where "escape_char c = ps @ CHR ''&'' # us" and "ss = us @ escape_text s"
    by (auto simp: append_eq_append_conv2 append_eq_Cons_conv Cons_eq_append_conv)
  then show ?case
  proof cases
    case 1
    from Cons.IH [OF 1(2)] show ?thesis .
  next
    case 2
    from escape_char_amp [OF 2(1)] have "us \<in> {''amp;'', ''lt;'', ''gt;'', ''nbsp;''}"
      by simp
    moreover have "prefix us ss"
      by (simp add: 2(2))
    ultimately show ?thesis
      by blast
  qed
qed

text \<open>
  Claim C3, as the specification states it: every occurrence of the double quote and of
  the single quote is escaped in the output. It is not: a string of the two quote
  characters comes back as it went in.
\<close>

theorem sanitizeHTML_quotes_counterexample:
  "sanitizeHTML [CHR 0x22, CHR 0x27] = [CHR 0x22, CHR 0x27] \<and>
   CHR 0x22 \<in> set (sanitizeHTML [CHR 0x22, CHR 0x27]) \<and>
   CHR 0x27 \<in> set (sanitizeHTML [CHR 0x22, CHR 0x27])"
  by (simp add: sanitizeHTML_escape_text escape_text_def escape_char_def)

text \<open>
  Claim C3, amended. For every string \<open>s\<close>, \<^verbatim>\<open>sanitizeHTML(s)\<close> is \<open>s\<close> with every \<^verbatim>\<open>&\<close>
  replaced by \<^verbatim>\<open>&amp;\<close>, every \<^verbatim>\<open><\<close> by \<^verbatim>\<open>&lt;\<close>, every \<^verbatim>\<open>>\<close> by \<^verbatim>\<open>&gt;\<close> (and every
  U+00A0 by \<^verbatim>\<open>&nbsp;\<close>): no \<^verbatim>\<open><\<close> and no \<^verbatim>\<open>>\<close> is left in the output, and every \<^verbatim>\<open>&\<close> of
  the output begins one of these four entities. The double and the single quotes of \<open>s\<close>
  are copied to the output unchanged, in number and order.
\<close>

theorem sanitizeHTML_escapes_markup:
  "sanitizeHTML s =
     concat (map (\<lambda>c. if c = CHR ''&'' then ''&amp;''
                       else if c = CHR ''<'' then ''&lt;''
                       else if c = CHR ''>'' then ''&gt;''
                       else if c = CHR 0xA0 then ''&nbsp;''
                       else [c]) s) \<and>
   CHR ''<'' \<notin> set (sanitizeHTML s) \<and>
   CHR ''>'' \<notin> set (sanitizeHTML s) \<and>
   (sanitizeHTML s = ps @ CHR ''&'' # ss
      \<longrightarrow> (\<exists>e\<in>{''amp;'', ''lt;'', ''gt;'', ''nbsp;''}. prefix e ss)) \<and>
   filter (\<lambda>c. c = CHR 0x22 \<or> c = CHR 0x27) (sanitizeHTML s)
     = filter (\<lambda>c. c = CHR 0x22 \<or> c = CHR 0x27) s"
proof -
  have "escape_char = (\<lambda>c. if c = CHR ''&'' then ''&amp;''
                       else if c = CHR ''<'' then ''&lt;''
                       else if c = CHR ''>'' then ''&gt;''
                       else if c = CHR 0xA0 then ''&nbsp;''
                       else [c])"
    by (rule ext) (simp add: escape_char_def)
  then have shape: "sanitizeHTML s =
     concat (map (\<lambda>c. if c = CHR ''&'' then ''&amp;''
                       else if c = CHR ''<'' then ''&lt;''
                       else if c = CHR ''>'' then ''&gt;''
                       else if c = CHR 0xA0 then ''&nbsp;''
                       else [c]) s)"
    by (simp add: sanitizeHTML_escape_text escape_text_def)
  have angle: "CHR ''<'' \<notin> set (sanitizeHTML s) \<and> CHR ''>'' \<notin> set (sanitizeHTML s)"
    using escape_char_no_angle by (simp add: sanitizeHTML_escape_text escape_text_def)
  have amp: "sanitizeHTML s = ps @ CHR ''&'' # ss
      \<longrightarrow> (\<exists>e\<in>{''amp;'', ''lt;'', ''gt;'', ''nbsp;''}. prefix e ss)"
    unfolding sanitizeHTML_escape_text using escape_text_amp [of s ps ss] by blast
  have quotes: "filter (\<lambda>c. c = CHR 0x22 \<or> c = CHR 0x27) (sanitizeHTML s)
     = filter (\<lambda>c. c = CHR 0x22 \<or> c = CHR 0x27) s"
    by (simp only: sanitizeHTML_escape_text escape_text_quotes)
  from shape angle amp quotes show ?thesis
    by (simp only: simp_thms)
qed

theorem sanitizeHTML_escapes_markup_witness:
  "sanitizeHTML ''<b>R&D</b>'' = ''&lt;b&gt;R&amp;D&lt;/b&gt;'' \<and>
   sanitizeHTML ''<b>R&D</b>'' = ''&lt;b&gt;R'' @ CHR ''&'' # ''amp;D&lt;/b&gt;'' \<and>
   (\<exists>e\<in>{''amp;'', ''lt;'', ''gt;'', ''nbsp;''}. prefix e ''amp;D&lt;/b&gt;'') \<and>
   CHR ''<'' \<notin> set (sanitizeHTML ''<b>R&D</b>'')"
proof -
  note inst = sanitizeHTML_escapes_markup
    [of "''<b>R&D</b>''" "''&lt;b&gt;R''" "''amp;D&lt;/b&gt;''"]
  have out: "sanitizeHTML ''<b>R&D</b>'' = ''&lt;b&gt;R&amp;D&lt;/b&gt;''"
    using inst [THEN conjunct1] by simp
  then have split: "sanitizeHTML ''<b>R&D</b>'' = ''&lt;b&gt;R'' @ CHR ''&'' # ''amp;D&lt;/b&gt;''"
    by simp
  with inst have ent: "\<exists>e\<in>{''amp;'', ''lt;'', ''gt;'', ''nbsp;''}. prefix e ''amp;D&lt;/b&gt;''"
    by blast
  from out split ent inst show ?thesis
    by blast
qed

section \<open>The allow-list of \<^verbatim>\<open>secureFileUpload\<close>\<close>

text \<open>
  Claim C8 says that \<^verbatim>\<open>secureFileUpload\<close> accepts the MIME type image/jpg. The array
  \<^verbatim>\<open>allowedTypes\<close> has no such entry, while \<^verbatim>\<open>validTypes\<close> of \<^verbatim>\<open>validateImage\<close> has it: a
  small image/jpg file with a harmless name passes \<^verbatim>\<open>validateImage\<close> and is thrown out by
  \<^verbatim>\<open>secureFileUpload\<close> as of invalid type.
\<close>

theorem secureFileUpload_rejects_image_jpg:
  "secureFileUpload \<lparr>file_name = ''photo.jpg'', file_type = ''image/jpg'', file_size = 1024\<rparr>
     = Inl (Error ''Invalid file type'') \<and>
   validateImage \<lparr>file_name = ''photo.jpg'', file_type = ''image/jpg'', file_size = 1024\<rparr>
     = Inr True"
  by (simp add: secureFileUpload_def validateImage_def array_includes_def allowedTypes_def
        validTypes_def maxSize_def)

section \<open>Responsive layout\<close>

lemma classList_add_set: "set (classList_add c cl) = insert c (set cl)"
  by (auto simp: classList_add_def)

lemma classList_remove_set: "set (classList_remove c cl) = set cl - {c}"
  by (auto simp: classList_remove_def)

text \<open>
  Claim C9. After \<^verbatim>\<open>handleResponsiveLayout\<close> has run for a viewport of width \<open>w\<close>, whatever
  classes the body had before, the body has the class mobile-layout exactly when
  \<open>w < 768\<close>, the class tablet-layout exactly when \<open>768 \<le> w < 992\<close>, and never both; the
  other classes of the body are as before. Width 500 gives mobile without tablet, width
  800 tablet without mobile, width 1200 neither.
\<close>

theorem handleResponsiveLayout_classes:
  "(''mobile-layout'' \<in> set (body_classList (handleResponsiveLayout v)) \<longleftrightarrow> innerWidth v < 768) \<and>
   (''tablet-layout'' \<in> set (body_classList (handleResponsiveLayout v))
      \<longleftrightarrow> 768 \<le> innerWidth v \<and> innerWidth v < 992) \<and>
   \<not> (''mobile-layout'' \<in> set (body_classList (handleResponsiveLayout v)) \<and>
      ''tablet-layout'' \<in> set (body_classList (handleResponsiveLayout v))) \<and>
   set (body_classList (handleResponsiveLayout v)) - {''mobile-layout'', ''tablet-layout''}
     = set (body_classList v) - {''mobile-layout'', ''tablet-layout''} \<and>
   innerWidth (handleResponsiveLayout v) = innerWidth v \<and>
   (let b = body_classList (handleResponsiveLayout \<lparr>innerWidth = 500, body_classList = cl\<rparr>)
    in ''mobile-layout'' \<in> set b \<and> ''tablet-layout'' \<notin> set b) \<and>
   (let b = body_classList (handleResponsiveLayout \<lparr>innerWidth = 800, body_classList = cl\<rparr>)
    in ''tablet-layout'' \<in> set b \<and> ''mobile-layout'' \<notin> set b) \<and>
   (let b = body_classList (handleResponsiveLayout \<lparr>innerWidth = 1200, body_classList = cl\<rparr>)
    in ''mobile-layout'' \<notin> set b \<and> ''tablet-layout'' \<notin> set b)"
  by (auto simp: handleResponsiveLayout_def Let_def classList_add_set classList_remove_set)

theorem handleResponsiveLayout_classes_witness:
  "body_classList (handleResponsiveLayout
      \<lparr>innerWidth = 800, body_classList = [''dark'', ''mobile-layout'']\<rparr>)
     = [''dark'', ''tablet-layout''] \<and>
   ''mobile-layout'' \<notin> set (body_classList (handleResponsiveLayout
      \<lparr>innerWidth = 800, body_classList = [''dark'', ''mobile-layout'']\<rparr>))"
  using handleResponsiveLayout_classes
          [of "\<lparr>innerWidth = 800, body_classList = [''dark'', ''mobile-layout'']\<rparr>"]
  by (simp add: handleResponsiveLayout_def classList_add_def classList_remove_def)

section \<open>The key-down listener and the Bootstrap global\<close>

lemma close_modals_absent:
  "close_modals None modals = (if modals = [] then Inr [] else Inl (ReferenceError ''bootstrap is not defined''))"
  by (cases modals) simp_all

lemma initializeComponents_returns: "\<exists>effs. initializeComponents p = Inr effs"
  by (simp add: initializeComponents_def)

text \<open>
  Claim C10 says that no handler of \<^verbatim>\<open>MedicalApp\<close> touches the Bootstrap global when it is
  absent, and that Escape with an open modal in such a page does not fault. The listener
  of \<^verbatim>\<open>setupKeyboardNavigation\<close> reads \<^verbatim>\<open>bootstrap.Modal\<close> without the \<^verbatim>\<open>typeof\<close> test that
  \<^verbatim>\<open>initializeComponents\<close> makes: in a page without the global and with one element of
  classes modal and show, Escape ends in a \<^verbatim>\<open>ReferenceError\<close>, while
  \<^verbatim>\<open>initializeComponents\<close> on the same page returns normally.
\<close>

theorem keydown_escape_without_bootstrap_faults:
  "keydown_listener
     \<lparr>bootstrap = None,
      elements = [\<lparr>el_id = 1, classList = [''modal'', ''show''], attributes = [], style_width = []\<rparr>]\<rparr>
     \<lparr>key = ''Escape'',
      target = \<lparr>el_id = 0, classList = [], attributes = [], style_width = []\<rparr>\<rparr>
     = Inl (ReferenceError ''bootstrap is not defined'') \<and>
   initializeComponents
     \<lparr>bootstrap = None,
      elements = [\<lparr>el_id = 1, classList = [''modal'', ''show''], attributes = [], style_width = []\<rparr>]\<rparr>
     = Inr []"
  by (simp add: keydown_listener_def querySelectorAll_modal_show_def classList_contains_def
        initializeComponents_def initializeProgressBars_def querySelectorAll_confidence_fill_def)

section \<open>Throttle: one invocation per lock\<close>

lemma run_unlock_timers_locked:
  "run_unlock_timers now \<lparr>inThrottle = True, unlock_timers = [u], applied = L\<rparr> =
     (if u \<le> now then \<lparr>inThrottle = False, unlock_timers = [], applied = L\<rparr>
      else \<lparr>inThrottle = True, unlock_timers = [u], applied = L\<rparr>)"
  by (simp add: run_unlock_timers_def)

lemma run_unlock_timers_open:
  "run_unlock_timers now \<lparr>inThrottle = False, unlock_timers = [], applied = L\<rparr> =
     \<lparr>inThrottle = False, unlock_timers = [], applied = L\<rparr>"
  by (simp add: run_unlock_timers_def)

lemma throttled_open:
  "throttled limit now args \<lparr>inThrottle = False, unlock_timers = [], applied = L\<rparr> =
     \<lparr>inThrottle = True, unlock_timers = [now + limit], applied = L @ [(now, args)]\<rparr>"
  by (simp add: throttled_def)

lemma throttled_locked:
  "throttled limit now args \<lparr>inThrottle = True, unlock_timers = us, applied = L\<rparr> =
     \<lparr>inThrottle = True, unlock_timers = us, applied = L\<rparr>"
  by (simp add: throttled_def)

lemma run_throttled_both:
  "applied (run_throttled limit events \<lparr>inThrottle = False, unlock_timers = [], applied = L\<rparr>)
     = L @ throttle_spec limit None events \<and>
   applied (run_throttled limit events \<lparr>inThrottle = True, unlock_timers = [u], applied = L\<rparr>)
     = L @ throttle_spec limit (Some u) events"
proof (induction events arbitrary: u L)
  case Nil
  show ?case by simp
next
  case (Cons e events)
  show ?case
  proof (cases e)
    case (Call now args)
    from Cons.IH [of "L @ [(now, args)]" "now + limit"] Cons.IH [of L u]
    show ?thesis
      by (simp add: Call throttled_open throttled_locked)
  next
    case (Idle now)
    from Cons.IH [of L u]
    show ?thesis
      by (simp add: Idle run_unlock_timers_open run_unlock_timers_locked)
  qed
qed

lemma run_throttled_refines:
  "applied (run_throttled limit events throttle) = throttle_spec limit None events"
  using run_throttled_both [of limit events "[]"] by (simp add: throttle_def)

lemma run_throttled_stays_locked:
  assumes "idle_before u events"
  shows "run_throttled limit events \<lparr>inThrottle = True, unlock_timers = [u], applied = L\<rparr>
           = \<lparr>inThrottle = True, unlock_timers = [u], applied = L\<rparr>"
  using assms
proof (induction events)
  case Nil
  show ?case by simp
next
  case (Cons e events)
  then show ?case
    by (cases e) (simp_all add: throttled_locked run_unlock_timers_locked)
qed

lemma run_throttled_first:
  "run_throttled limit [Call t a] throttle
     = \<lparr>inThrottle = True, unlock_timers = [t + limit], applied = [(t, a)]\<rparr>"
  by (simp add: throttle_def throttled_open)

text \<open>
  Claim C5. The invocations of \<^verbatim>\<open>func\<close> made by the wrapper that \<^verbatim>\<open>throttle(func, limit)\<close>
  returns are, for every sequence of events, those of the specification: a call outside
  a lock invokes \<^verbatim>\<open>func\<close> at once and starts a lock of \<open>limit\<close> ms, a call during a lock is
  dropped. The first call, at time \<open>t\<close>, invokes \<^verbatim>\<open>func\<close> immediately and leaves the wrapper
  locked with its release due at \<open>t + limit\<close>. As long as the event loop has not run at
  \<open>t + limit\<close> or later, every further call leaves the whole state as it was (nothing is
  invoked and nothing is queued). Once the event loop has run at \<open>t + limit\<close> or later,
  the next call invokes \<^verbatim>\<open>func\<close> again. Five calls made at once with limit 100 invoke
  \<^verbatim>\<open>func\<close> once, at the time and with the arguments of the first call, and a sixth call
  at time 150 invokes it again.
\<close>

theorem throttle_drops_during_lock:
  "applied (run_throttled limit events throttle) = throttle_spec limit None events \<and>
   run_throttled limit [Call t a] throttle
     = \<lparr>inThrottle = True, unlock_timers = [t + limit], applied = [(t, a)]\<rparr> \<and>
   (idle_before (t + limit) events \<longrightarrow>
      run_throttled limit (Call t a # events) throttle = run_throttled limit [Call t a] throttle) \<and>
   (t + limit \<le> s \<longrightarrow>
      applied (run_throttled limit [Call t a, Idle s, Call u b] throttle) = [(t, a), (u, b)]) \<and>
   applied (run_throttled 100 [Call 0 a1, Call 0 a2, Call 0 a3, Call 0 a4, Call 0 a5] throttle)
     = [(0, a1)] \<and>
   applied (run_throttled 100
      [Call 0 a1, Call 0 a2, Call 0 a3, Call 0 a4, Call 0 a5, Idle 100, Call 150 a6] throttle)
     = [(0, a1), (150, a6)]"
proof -
  have dropped: "idle_before (t + limit) events \<longrightarrow>
      run_throttled limit (Call t a # events) throttle = run_throttled limit [Call t a] throttle"
  proof
    assume quiet: "idle_before (t + limit) events"
    have "run_throttled limit (Call t a # events) throttle
        = run_throttled limit events (run_throttled limit [Call t a] throttle)"
      by simp
    also have "\<dots> = run_throttled limit [Call t a] throttle"
      unfolding run_throttled_first using quiet by (rule run_throttled_stays_locked)
    finally show "run_throttled limit (Call t a # events) throttle
        = run_throttled limit [Call t a] throttle" .
  qed
  have again: "t + limit \<le> s \<longrightarrow>
      applied (run_throttled limit [Call t a, Idle s, Call u b] throttle) = [(t, a), (u, b)]"
    unfolding run_throttled_refines by simp
  have five: "applied (run_throttled 100 [Call 0 a1, Call 0 a2, Call 0 a3, Call 0 a4, Call 0 a5] throttle)
     = [(0, a1)]"
    unfolding run_throttled_refines by simp
  have six: "applied (run_throttled 100
      [Call 0 a1, Call 0 a2, Call 0 a3, Call 0 a4, Call 0 a5, Idle 100, Call 150 a6] throttle)
     = [(0, a1), (150, a6)]"
    unfolding run_throttled_refines by simp
  from run_throttled_refines [of limit events] run_throttled_first [of limit t a] dropped again five six
  show ?thesis
    by (simp only: simp_thms)
qed

theorem throttle_drops_during_lock_witness:
  "applied (run_throttled 100
      [Call 0 ''a'', Call 40 ''b'', Idle 99, Call 99 ''c'', Idle 100, Call 100 ''d'', Call 250 ''e'',
       Idle 260, Call 260 ''f''] throttle)
     = [(0, ''a''), (100, ''d''), (260, ''f'')] \<and>
   idle_before (0 + 100) [Call 40 ''b'', Idle 99, Call 99 ''c''] \<and>
   run_throttled 100 (Call 0 ''a'' # [Call 40 ''b'', Idle 99, Call 99 ''c'']) throttle
     = run_throttled 100 [Call 0 ''a''] throttle \<and>
   applied (run_throttled 100 [Call 0 ''a'', Idle 120, Call 150 ''e''] throttle)
     = [(0, ''a''), (150, ''e'')] \<and>
   applied (run_throttled 0 [Call 0 ''a'', Call 0 ''b'', Call 0 ''c''] throttle) = [(0, ''a'')]"
proof -
  note inst = throttle_drops_during_lock
    [where limit = 100 and t = 0 and a = "''a''" and s = 120 and u = 150 and b = "''e''"]
  have trace: "applied (run_throttled 100
      [Call 0 ''a'', Call 40 ''b'', Idle 99, Call 99 ''c'', Idle 100, Call 100 ''d'', Call 250 ''e'',
       Idle 260, Call 260 ''f''] throttle)
     = throttle_spec 100 None
      [Call 0 ''a'', Call 40 ''b'', Idle 99, Call 99 ''c'', Idle 100, Call 100 ''d'', Call 250 ''e'',
       Idle 260, Call 260 ''f'']"
    by (rule inst [THEN conjunct1])
  have quiet: "idle_before (0 + 100) [Call 40 ''b'', Idle 99, Call 99 ''c'']"
    by simp
  with inst [THEN conjunct2, THEN conjunct2, THEN conjunct1]
  have dropped: "run_throttled 100 (Call 0 ''a'' # [Call 40 ''b'', Idle 99, Call 99 ''c'']) throttle
     = run_throttled 100 [Call 0 ''a''] throttle"
    by (rule mp)
  have "(0::nat) + 100 \<le> 120"
    by simp
  with inst [THEN conjunct2, THEN conjunct2, THEN conjunct2, THEN conjunct1]
  have again: "applied (run_throttled 100 [Call 0 ''a'', Idle 120, Call 150 ''e''] throttle)
     = [(0, ''a''), (150, ''e'')]"
    by (rule mp)
  have zero: "applied (run_throttled 0 [Call 0 ''a'', Call 0 ''b'', Call 0 ''c''] throttle)
     = throttle_spec 0 None [Call 0 ''a'', Call 0 ''b'', Call 0 ''c'']"
    by (rule throttle_drops_during_lock [THEN conjunct1])
  show ?thesis
    unfolding trace dropped again zero using quiet by simp
qed

section \<open>Debounce: one invocation per burst\<close>

lemma run_timers_none_due:
  assumes "timers st = [(i, d, a)]" and "now < d"
  shows "run_timers immediate now st = st"
  using assms by (simp add: run_timers_def)

lemma run_timers_due:
  assumes "timers st = [(i, d, a)]" and "d \<le> now"
  shows "run_timers immediate now st = later immediate d a (st\<lparr>timers := []\<rparr>)"
  using assms by (simp add: run_timers_def)

lemma run_timers_empty:
  assumes "timers st = []"
  shows "run_timers immediate now st = st"
  using assms by (simp add: run_timers_def)

lemma executedFunction_pending:
  assumes "timers st = [(i, d, a)]" and "timeout st = Some i"
  shows "executedFunction immediate wait now args st
     = st\<lparr>timers := [(next_id st, now + wait, args)], next_id := Suc (next_id st),
          timeout := Some (next_id st)\<rparr>"
  using assms by (simp add: executedFunction_def clearTimeout_def setTimeout_def)

lemma executedFunction_first:
  "executedFunction immediate wait now args debounce
     = \<lparr>timeout = Some 1, timers = [(1, now + wait, args)], next_id = 2,
        invoked = (if immediate then [(now, args)] else [])\<rparr>"
  by (simp add: executedFunction_def clearTimeout_def setTimeout_def debounce_def func_def)

lemma run_calls_burst:
  assumes "within_wait wait (t # map fst calls)"
    and "timers st = [(i, t + wait, a)]" and "timeout st = Some i"
  shows "\<exists>j. timers (run_calls immediate wait calls st)
            = [(j, fst (last ((t, a) # calls)) + wait, snd (last ((t, a) # calls)))] \<and>
          timeout (run_calls immediate wait calls st) = Some j \<and>
          invoked (run_calls immediate wait calls st) = invoked st"
  using assms
proof (induction calls arbitrary: st i t a)
  case Nil
  then show ?case by simp
next
  case (Cons c calls)
  obtain u b where c: "c = (u, b)" by (cases c)
  from Cons.prems(1) have u: "u < t + wait" and rest: "within_wait wait (u # map fst calls)"
    by (simp_all add: c)
  let ?st = "executedFunction immediate wait u b (run_timers immediate u st)"
  have idle: "run_timers immediate u st = st"
    using Cons.prems(2) u by (rule run_timers_none_due)
  have st': "?st = st\<lparr>timers := [(next_id st, u + wait, b)], next_id := Suc (next_id st),
          timeout := Some (next_id st)\<rparr>"
    unfolding idle using Cons.prems(2,3) by (rule executedFunction_pending)
  have "timers ?st = [(next_id st, u + wait, b)]" and "timeout ?st = Some (next_id st)"
    and inv: "invoked ?st = invoked st"
    by (simp_all add: st')
  with Cons.IH [OF rest, of ?st "next_id st" b]
  obtain j where "timers (run_calls immediate wait calls ?st)
            = [(j, fst (last ((u, b) # calls)) + wait, snd (last ((u, b) # calls)))]"
     "timeout (run_calls immediate wait calls ?st) = Some j"
     "invoked (run_calls immediate wait calls ?st) = invoked ?st"
    by blast
  then show ?case
    by (auto simp: c inv)
qed

lemma run_calls_from_start:
  assumes "calls \<noteq> []" and "within_wait wait (map fst calls)"
  shows "\<exists>j. timers (run_calls immediate wait calls debounce)
            = [(j, fst (last calls) + wait, snd (last calls))] \<and>
          timeout (run_calls immediate wait calls debounce) = Some j \<and>
          invoked (run_calls immediate wait calls debounce)
            = (if immediate then [hd calls] else [])"
proof -
  from assms(1) obtain t a cs where calls: "calls = (t, a) # cs"
    by (cases calls) auto
  let ?st = "executedFunction immediate wait t a debounce"
  have start: "run_calls immediate wait calls debounce = run_calls immediate wait cs ?st"
    by (simp add: calls run_timers_empty debounce_def)
  have "within_wait wait (t # map fst cs)"
    using assms(2) by (simp add: calls)
  moreover have "timers ?st = [(1, t + wait, a)]" and "timeout ?st = Some 1"
    by (simp_all add: executedFunction_first)
  ultimately obtain j where "timers (run_calls immediate wait cs ?st)
            = [(j, fst (last ((t, a) # cs)) + wait, snd (last ((t, a) # cs)))]"
     "timeout (run_calls immediate wait cs ?st) = Some j"
     "invoked (run_calls immediate wait cs ?st) = invoked ?st"
    using run_calls_burst [of wait t cs ?st 1 a immediate] by blast
  then show ?thesis
    unfolding start by (auto simp: calls executedFunction_first)
qed

lemma debounce_trailing:
  assumes "calls \<noteq> []" and "within_wait wait (map fst calls)"
  shows "invoked (run_timers False T (run_calls False wait calls debounce))
           = (if fst (last calls) + wait \<le> T then [(fst (last calls) + wait, snd (last calls))] else [])"
proof -
  from run_calls_from_start [OF assms, of False]
  obtain j where tm: "timers (run_calls False wait calls debounce)
            = [(j, fst (last calls) + wait, snd (last calls))]"
    and inv: "invoked (run_calls False wait calls debounce) = []"
    by auto
  show ?thesis
  proof (cases "fst (last calls) + wait \<le> T")
    case True
    with run_timers_due [OF tm, of T False] inv show ?thesis
      by (simp add: later_def func_def)
  next
    case False
    then have "T < fst (last calls) + wait" by simp
    with run_timers_none_due [OF tm, of T False] inv False show ?thesis
      by simp
  qed
qed

lemma debounce_leading:
  assumes "calls \<noteq> []" and "within_wait wait (map fst calls)"
  shows "invoked (run_calls True wait calls debounce) = [hd calls]"
    and "invoked (run_timers True T (run_calls True wait calls debounce)) = [hd calls]"
proof -
  from run_calls_from_start [OF assms, of True]
  obtain j where tm: "timers (run_calls True wait calls debounce)
            = [(j, fst (last calls) + wait, snd (last calls))]"
    and inv: "invoked (run_calls True wait calls debounce) = [hd calls]"
    by auto
  show "invoked (run_calls True wait calls debounce) = [hd calls]"
    by (rule inv)
  show "invoked (run_timers True T (run_calls True wait calls debounce)) = [hd calls]"
  proof (cases "fst (last calls) + wait \<le> T")
    case True
    with run_timers_due [OF tm, of T True] inv show ?thesis
      by (simp add: later_def)
  next
    case False
    then have "T < fst (last calls) + wait" by simp
    with run_timers_none_due [OF tm, of T True] inv show ?thesis
      by simp
  qed
qed

text \<open>
  Claim C4. Take the wrapper of \<^verbatim>\<open>debounce(func, wait)\<close> with \<^verbatim>\<open>immediate\<close> falsy and any
  non-empty sequence of calls in which each call comes less than \<open>wait\<close> ms after the one
  before it. Up to any time \<open>T\<close>, \<^verbatim>\<open>func\<close> has been invoked exactly once if \<open>T\<close> is at least
  \<open>wait\<close> ms after the last call, namely at \<open>wait\<close> ms after the last call and with the
  arguments of the last call, and not at all before. Five calls at times 0, 10, 20, 30,
  40 with \<open>wait = 100\<close> give no invocation up to time 139 and the single invocation at
  time 140 with the arguments of the fifth call. With \<^verbatim>\<open>immediate\<close> true, \<^verbatim>\<open>func\<close> is invoked
  at the leading call, with its arguments, and is not invoked again by the burst.
\<close>

theorem debounce_burst_fires_once:
  assumes "calls \<noteq> []" and "within_wait wait (map fst calls)"
  shows "invoked (run_timers False T (run_calls False wait calls debounce))
           = (if fst (last calls) + wait \<le> T
              then [(fst (last calls) + wait, snd (last calls))] else []) \<and>
         invoked (run_calls True wait calls debounce) = [hd calls] \<and>
         invoked (run_timers True T (run_calls True wait calls debounce)) = [hd calls] \<and>
         invoked (run_timers False 139
            (run_calls False 100 [(0, a1), (10, a2), (20, a3), (30, a4), (40, a5)] debounce)) = [] \<and>
         invoked (run_timers False 140
            (run_calls False 100 [(0, a1), (10, a2), (20, a3), (30, a4), (40, a5)] debounce))
           = [(140, a5)]"
proof -
  have five: "[(0::nat, a1), (10, a2), (20, a3), (30, a4), (40, a5)] \<noteq> []"
    "within_wait 100 (map fst [(0::nat, a1), (10, a2), (20, a3), (30, a4), (40, a5)])"
    by simp_all
  have early: "invoked (run_timers False 139
      (run_calls False 100 [(0, a1), (10, a2), (20, a3), (30, a4), (40, a5)] debounce)) = []"
    unfolding debounce_trailing [OF five] by simp
  have fired: "invoked (run_timers False 140
      (run_calls False 100 [(0, a1), (10, a2), (20, a3), (30, a4), (40, a5)] debounce)) = [(140, a5)]"
    unfolding debounce_trailing [OF five] by simp
  from debounce_trailing [OF assms, of T] debounce_leading [OF assms] early fired
  show ?thesis
    by (simp only: simp_thms)
qed

theorem debounce_burst_fires_once_witness:
  "[(0::nat, ''a''), (30, ''b''), (120, ''c'')] \<noteq> [] \<and>
   within_wait 100 (map fst [(0::nat, ''a''), (30, ''b''), (120, ''c'')]) \<and>
   invoked (run_timers False 300
      (run_calls False 100 [(0, ''a''), (30, ''b''), (120, ''c'')] debounce)) = [(220, ''c'')] \<and>
   invoked (run_calls True 100 [(0, ''a''), (30, ''b''), (120, ''c'')] debounce) = [(0, ''a'')]"
proof -
  have h1: "[(0::nat, ''a''), (30, ''b''), (120, ''c'')] \<noteq> []"
    by simp
  have h2: "within_wait 100 (map fst [(0::nat, ''a''), (30, ''b''), (120, ''c'')])"
    by simp
  note inst = debounce_burst_fires_once [OF h1 h2, where T = 300]
  have trailing: "invoked (run_timers False 300
      (run_calls False 100 [(0, ''a''), (30, ''b''), (120, ''c'')] debounce))
        = (if fst (last [(0::nat, ''a''), (30, ''b''), (120, ''c'')]) + 100 \<le> 300
           then [(fst (last [(0::nat, ''a''), (30, ''b''), (120, ''c'')]) + 100,
                  snd (last [(0::nat, ''a''), (30, ''b''), (120, ''c'')]))] else [])"
    by (rule inst [THEN conjunct1])
  have leading: "invoked (run_calls True 100 [(0, ''a''), (30, ''b''), (120, ''c'')] debounce)
        = [hd [(0, ''a''), (30, ''b''), (120, ''c'')]]"
    by (rule inst [THEN conjunct2, THEN conjunct1])
  show ?thesis
    unfolding trailing leading using h1 h2 by simp
qed

section \<open>Byte counts as text: reading past the array of units\<close>

declare digits.simps [simp del]

lemma ln_1024: "ln (1024::real) = 10 * ln 2"
proof -
  have "ln ((2::real) ^ 10) = real 10 * ln 2"
    by (rule ln_realpow)
  then show ?thesis
    by simp
qed

lemma log_quotient_power_of_two: "ln (real (2 ^ n)) / ln 1024 = real n / 10"
proof -
  have "ln ((2::real) ^ n) = real n * ln 2"
    by (rule ln_realpow)
  moreover have "ln (2::real) \<noteq> 0"
    by simp
  ultimately show ?thesis
    by (simp add: ln_1024)
qed

lemma log_index_power_of_two:
  assumes "real_of_int i * 10 \<le> real n * (1 + rounding (2 ^ n))"
    and "real n * (1 + rounding (2 ^ n)) < (real_of_int i + 1) * 10"
  shows "log_index rounding 1024 (2 ^ n) = i"
proof -
  have "log_index rounding 1024 (2 ^ n) = \<lfloor>real n / 10 * (1 + rounding (2 ^ n))\<rfloor>"
    unfolding log_index_def log_quotient_power_of_two ..
  also have "\<dots> = i"
    using assms by (intro floor_unique) (simp_all add: field_simps)
  finally show ?thesis .
qed

lemma formatBytes_positive:
  assumes "0 < bytes" and "d \<le> 100"
  shows "formatBytes rounding bytes (Some d) =
           Inr (parseFloat_toString
                  (toFixed_string
                     (toFixed_integer (real bytes / pow 1024 (log_index rounding 1024 bytes)) (nat d))
                     (nat d))
                @ '' '' @
                to_string (array_get [''Bytes'', ''KB'', ''MB'', ''GB'', ''TB'', ''PB'', ''EB'', ''ZB'', ''YB'']
                             (log_index rounding 1024 bytes)))"
proof -
  have dm: "nat (if d < 0 then 0 else d) = nat d"
    by simp
  from assms(2) have ok: "\<not> nat d > 100"
    by simp
  show ?thesis
    using assms(1) ok unfolding formatBytes_def Let_def option.case dm toFixed_def
    by simp
qed

lemma formatBytes_default: "formatBytes rounding bytes None = formatBytes rounding bytes (Some 2)"
  unfolding formatBytes_def by simp

lemma formatFileSize_positive:
  assumes "0 < bytes"
  shows "formatFileSize rounding bytes =
           Inr (parseFloat_toString
                  (toFixed_string
                     (toFixed_integer (real bytes / pow 1024 (log_index rounding 1024 bytes)) 2) 2)
                @ '' '' @
                to_string (array_get [''Bytes'', ''KB'', ''MB'', ''GB''] (log_index rounding 1024 bytes)))"
  using assms unfolding formatFileSize_def Let_def toFixed_def
  by simp

lemmas format_eval =
  pow_def toFixed_integer_def toFixed_string_def digits.simps
  parseFloat_toString_def array_get_def to_string_def

lemma array_get_prefix:
  assumes "i < int (length xs)"
  shows "array_get (xs @ ys) i = array_get xs i"
  using assms by (auto simp: array_get_def nth_append)

lemma array_get_first_four:
  assumes "i < 4"
  shows "array_get [''Bytes'', ''KB'', ''MB'', ''GB''] i
       = array_get [''Bytes'', ''KB'', ''MB'', ''GB'', ''TB'', ''PB'', ''EB'', ''ZB'', ''YB''] i"
  using assms array_get_prefix [of i "[''Bytes'', ''KB'', ''MB'', ''GB'']" "[''TB'', ''PB'', ''EB'', ''ZB'', ''YB'']"]
  by simp

text \<open>Below index 4 the two functions return the same text, whatever the host.\<close>

lemma formatFileSize_as_formatBytes:
  assumes "log_index rounding 1024 bytes < 4"
  shows "formatFileSize rounding bytes = formatBytes rounding bytes (Some 2)"
proof (cases "bytes = 0")
  case True
  then show ?thesis
    by (simp add: formatFileSize_def formatBytes_def)
next
  case False
  then have "0 < bytes"
    by simp
  then show ?thesis
    using assms
    by (simp only: formatFileSize_positive formatBytes_positive [where d = 2]
          array_get_first_four)
      simp
qed

text \<open>From index 4 to index 8 they differ, whatever the host.\<close>

lemma formatFileSize_undefined_unit:
  assumes "0 < bytes" and "4 \<le> log_index rounding 1024 bytes" and "log_index rounding 1024 bytes \<le> 8"
  shows "formatFileSize rounding bytes \<noteq> formatBytes rounding bytes (Some 2)"
proof -
  from assms(2,3) have "nat (log_index rounding 1024 bytes) \<in> {4, 5, 6, 7, 8}"
    by auto
  then have unit: "to_string (array_get [''Bytes'', ''KB'', ''MB'', ''GB'', ''TB'', ''PB'', ''EB'', ''ZB'', ''YB'']
        (log_index rounding 1024 bytes)) \<in> {''TB'', ''PB'', ''EB'', ''ZB'', ''YB''}"
    using assms(2,3) by (auto simp: array_get_def to_string_def)
  have none: "to_string (array_get [''Bytes'', ''KB'', ''MB'', ''GB''] (log_index rounding 1024 bytes))
      = ''undefined''"
    using assms(2) by (simp add: array_get_def to_string_def)
  from unit show ?thesis
    unfolding formatFileSize_positive [OF assms(1)] formatBytes_positive [OF assms(1), of 2, simplified] none
    by auto
qed

text \<open>From index 9 on, \<^verbatim>\<open>formatBytes\<close> has no unit either.\<close>

lemma formatBytes_undefined_unit:
  assumes "0 < bytes" and "9 \<le> log_index rounding 1024 bytes" and "d \<le> 100"
  shows "\<exists>number. formatBytes rounding bytes (Some d) = Inr (number @ '' undefined'')"
proof -
  have "to_string (array_get [''Bytes'', ''KB'', ''MB'', ''GB'', ''TB'', ''PB'', ''EB'', ''ZB'', ''YB'']
        (log_index rounding 1024 bytes)) = ''undefined''"
    using assms(2) by (simp add: array_get_def to_string_def)
  then show ?thesis
    unfolding formatBytes_positive [OF assms(1,3)] by simp
qed

text \<open>
  Claim C6 says that \<^verbatim>\<open>formatBytes\<close> selects, for every positive count, the largest
  base-1024 unit such that the scaled value is at least 1. The function reads its array
  of nine units at the index without a bound. At \<open>2\<^sup>9\<^sup>5\<close> bytes the quotient of the
  logarithms is 9.5: on every host whose quotient is within a twentieth of that, the
  index is 9, the count is scaled by \<open>1024\<^sup>9\<close>, and the result is \<^verbatim>\<open>32 undefined\<close>, with and
  without the default number of decimals.
\<close>

theorem formatBytes_past_YB_undefined:
  assumes "\<bar>rounding (2 ^ 95)\<bar> \<le> 1 / 20"
  shows "log_index rounding 1024 (2 ^ 95) = 9 \<and>
         formatBytes rounding (2 ^ 95) None = Inr ''32 undefined'' \<and>
         formatBytes rounding (2 ^ 95) (Some 2) = Inr ''32 undefined''"
proof -
  have i: "log_index rounding 1024 (2 ^ 95) = 9"
    using assms by (intro log_index_power_of_two) (simp_all add: abs_le_iff)
  have "formatBytes rounding (2 ^ 95) (Some 2)
      = Inr (parseFloat_toString (toFixed_string (toFixed_integer (real (2 ^ 95) / pow 1024 9) (nat 2)) (nat 2))
             @ '' '' @
             to_string (array_get [''Bytes'', ''KB'', ''MB'', ''GB'', ''TB'', ''PB'', ''EB'', ''ZB'', ''YB''] 9))"
    using formatBytes_positive [of "2 ^ 95" 2 rounding] by (simp only: i) simp
  also have "\<dots> = Inr ''32 undefined''"
    by (simp add: format_eval)
  finally have a: "formatBytes rounding (2 ^ 95) (Some 2) = Inr ''32 undefined''" .
  have b: "formatBytes rounding (2 ^ 95) None = Inr ''32 undefined''"
    unfolding formatBytes_default by (rule a)
  from i a b show ?thesis
    by (simp only: simp_thms)
qed

theorem formatBytes_past_YB_undefined_witness:
  "\<bar>(\<lambda>bytes. 0::real) (2 ^ 95)\<bar> \<le> 1 / 20 \<and>
   log_index (\<lambda>bytes. 0) 1024 (2 ^ 95) = 9 \<and>
   formatBytes (\<lambda>bytes. 0) (2 ^ 95) None = Inr ''32 undefined''"
proof -
  have small: "\<bar>(\<lambda>bytes. 0::real) (2 ^ 95)\<bar> \<le> 1 / 20"
    by simp
  from formatBytes_past_YB_undefined [of "\<lambda>bytes. 0", OF small] small show ?thesis
    by (simp only: simp_thms)
qed

text \<open>
  Claim C7 says that \<^verbatim>\<open>formatFileSize(b)\<close> is \<^verbatim>\<open>formatBytes(b, 2)\<close> for every byte count.
  The two functions agree as long as the index is below 4. The array of units of
  \<^verbatim>\<open>formatFileSize\<close> ends at GB, and the function reads it at the index without a bound.
  At \<open>2\<^sup>4\<^sup>1\<close> bytes (2 TiB) the quotient of the logarithms is 4.1: on every host whose
  quotient is within a fiftieth of that, the index is 4 and \<^verbatim>\<open>formatFileSize\<close> returns
  \<^verbatim>\<open>2 undefined\<close>, while \<^verbatim>\<open>formatBytes\<close>, whose array goes on to YB, returns \<^verbatim>\<open>2 TB\<close>.
\<close>

theorem formatFileSize_TB_undefined:
  assumes "\<bar>rounding (2 ^ 41)\<bar> \<le> 1 / 50"
  shows "log_index rounding 1024 (2 ^ 41) = 4 \<and>
         formatFileSize rounding (2 ^ 41) = Inr ''2 undefined'' \<and>
         formatBytes rounding (2 ^ 41) (Some 2) = Inr ''2 TB'' \<and>
         formatBytes rounding (2 ^ 41) None = Inr ''2 TB'' \<and>
         formatFileSize rounding (2 ^ 41) \<noteq> formatBytes rounding (2 ^ 41) (Some 2)"
proof -
  have i: "log_index rounding 1024 (2 ^ 41) = 4"
    using assms by (intro log_index_power_of_two) (simp_all add: abs_le_iff)
  have "formatFileSize rounding (2 ^ 41)
      = Inr (parseFloat_toString (toFixed_string (toFixed_integer (real (2 ^ 41) / pow 1024 4) 2) 2)
             @ '' '' @ to_string (array_get [''Bytes'', ''KB'', ''MB'', ''GB''] 4))"
    using formatFileSize_positive [of "2 ^ 41" rounding] by (simp only: i) simp
  also have "\<dots> = Inr ''2 undefined''"
    by (simp add: format_eval)
  finally have a: "formatFileSize rounding (2 ^ 41) = Inr ''2 undefined''" .
  have "formatBytes rounding (2 ^ 41) (Some 2)
      = Inr (parseFloat_toString (toFixed_string (toFixed_integer (real (2 ^ 41) / pow 1024 4) (nat 2)) (nat 2))
             @ '' '' @
             to_string (array_get [''Bytes'', ''KB'', ''MB'', ''GB'', ''TB'', ''PB'', ''EB'', ''ZB'', ''YB''] 4))"
    using formatBytes_positive [of "2 ^ 41" 2 rounding] by (simp only: i) simp
  also have "\<dots> = Inr ''2 TB''"
    by (simp add: format_eval)
  finally have b: "formatBytes rounding (2 ^ 41) (Some 2) = Inr ''2 TB''" .
  have c: "formatBytes rounding (2 ^ 41) None = Inr ''2 TB''"
    unfolding formatBytes_default by (rule b)
  show ?thesis
    unfolding a b c i by simp
qed

theorem formatFileSize_TB_undefined_witness:
  "\<bar>(\<lambda>bytes. 0::real) (2 ^ 41)\<bar> \<le> 1 / 50 \<and>
   formatFileSize (\<lambda>bytes. 0) (2 ^ 41) = Inr ''2 undefined'' \<and>
   formatBytes (\<lambda>bytes. 0) (2 ^ 41) (Some 2) = Inr ''2 TB''"
proof -
  have small: "\<bar>(\<lambda>bytes. 0::real) (2 ^ 41)\<bar> \<le> 1 / 50"
    by simp
  from formatFileSize_TB_undefined [of "\<lambda>bytes. 0", OF small] small show ?thesis
    by (simp only: simp_thms)
qed

end
